theory Spec2Isabelle
  imports Main
begin

section \<open>Python values and primitives used by lexical\_analysis.py\<close>

text \<open>
  A Python \<open>str\<close> is modelled as a HOL \<open>string\<close>: one \<open>char\<close> stands for one
  character of the Python string, so \<open>length\<close> is Python's \<open>len\<close> and a string of
  length one is what indexing a \<open>str\<close> returns. Exceptions are values of \<open>py_error\<close>;
  a computation that may raise returns \<open>py_error + 'a\<close> with \<open>Inl\<close> the exception.
\<close>

datatype py_error = TypeError | ValueError | IndexError | KeyError

text \<open>
  The dynamically typed values that reach \<open>_preprocess\<close>: its call argument, the
  elements of a list, and the token ids it computes (a value of the word vocabulary, or
  \<open>None\<close> when the vocabulary has no \<open>"OOV"\<close> entry).
\<close>

datatype pyobj = PNone | PInt int | PStr string | PList "pyobj list"

fun is_str :: "pyobj \<Rightarrow> bool" where
  "is_str (PStr s) = True"
| "is_str v = False"

fun is_list :: "pyobj \<Rightarrow> bool" where
  "is_list (PList xs) = True"
| "is_list v = False"

text \<open>
  A vocabulary as \<open>load_vocab\<close> builds it: a dict whose keys are all \<open>str\<close> and
  whose values are the second field of a line, a \<open>str\<close>, or a line number, an \<open>int\<close>.
\<close>

datatype vocab_value = VStr string | VInt int

type_synonym vocab = "string \<rightharpoonup> vocab_value"

fun obj_of :: "vocab_value \<Rightarrow> pyobj" where
  "obj_of (VStr s) = PStr s"
| "obj_of (VInt i) = PInt i"

text \<open>\<open>xs[i]\<close> on a list: a negative index counts from the end, out of range raises.\<close>

definition py_getitem :: "'a list \<Rightarrow> int \<Rightarrow> py_error + 'a" where
  "py_getitem xs i =
     (if 0 \<le> i then
        (if i < int (length xs) then Inr (xs ! nat i) else Inl IndexError)
      else if - int (length xs) \<le> i then Inr (xs ! nat (int (length xs) + i))
      else Inl IndexError)"

text \<open>\<open>s[i]\<close> on a \<open>str\<close>: the result is the string of that one character.\<close>

definition str_getitem :: "string \<Rightarrow> int \<Rightarrow> py_error + string" where
  "str_getitem s i = (case py_getitem s i of Inl e \<Rightarrow> Inl e | Inr c \<Rightarrow> Inr [c])"

text \<open>\<open>s.endswith(suffix)\<close>.\<close>

definition endswith :: "string \<Rightarrow> string \<Rightarrow> bool" where
  "endswith s suf = (length suf \<le> length s \<and> drop (length s - length suf) s = suf)"

text \<open>
  \<open>s.split(sep)\<close> for a separator of one character: the fields between the
  occurrences of \<open>sep\<close>, empty fields kept; the result is never the empty list.
\<close>

fun split_acc :: "char \<Rightarrow> string \<Rightarrow> string \<Rightarrow> string list" where
  "split_acc sep acc [] = [acc]"
| "split_acc sep acc (c # cs) =
     (if c = sep then acc # split_acc sep [] cs else split_acc sep (acc @ [c]) cs)"

definition py_split :: "char \<Rightarrow> string \<Rightarrow> string list" where
  "py_split sep s = split_acc sep [] s"




text \<open>\<open>str(i)\<close> for an \<open>int\<close>: decimal digits, a minus sign for a negative number.\<close>

definition digit_char :: "nat \<Rightarrow> char" where
  "digit_char d = ''0123456789'' ! d"

fun str_nat :: "nat \<Rightarrow> string" where
  "str_nat n = (if n < 10 then [digit_char n] else str_nat (n div 10) @ [digit_char (n mod 10)])"

definition str_int :: "int \<Rightarrow> string" where
  "str_int i = (if i < 0 then CHR ''-'' # str_nat (nat (- i)) else str_nat (nat i))"

text \<open>
  \<open>d.get(key, default)\<close> on a vocabulary: hashing a list raises \<open>TypeError\<close>; a key
  that is not a \<open>str\<close> equals no key of the dict.
\<close>

fun dict_get :: "vocab \<Rightarrow> pyobj \<Rightarrow> pyobj \<Rightarrow> py_error + pyobj" where
  "dict_get d (PList xs) dflt = Inl TypeError"
| "dict_get d (PStr k) dflt = Inr (case d k of Some v \<Rightarrow> obj_of v | None \<Rightarrow> dflt)"
| "dict_get d key dflt = Inr dflt"

section \<open>load\_vocab\<close>



section \<open>LacTask.\_preprocess\<close>

text \<open>
  The check of the call argument (\<open>inputs[0]\<close> of the argument tuple): a \<open>str\<close> is
  wrapped into a list, then anything that is neither a \<open>str\<close> nor a \<open>list\<close> raises.
\<close>

definition check_inputs :: "pyobj \<Rightarrow> py_error + pyobj" where
  "check_inputs inputs0 =
     (let inputs = (if is_str inputs0 then PList [inputs0] else inputs0)
      in if \<not> is_str inputs \<and> \<not> is_list inputs then Inl TypeError else Inr inputs)"

text \<open>
  \<open>max_seq_len\<close> is read from the keyword arguments, 64 when absent. It is a length,
  a natural number, so the slice \<open>input_tokens[:max_seq_len]\<close> is \<open>take\<close>.
\<close>

definition max_seq_len :: "(string \<rightharpoonup> nat) \<Rightarrow> nat" where
  "max_seq_len kwargs = (case kwargs ''max_seq_len'' of Some n \<Rightarrow> n | None \<Rightarrow> 64)"

definition oov_token_id :: "vocab \<Rightarrow> pyobj" where
  "oov_token_id word_vocab = (case word_vocab ''OOV'' of Some v \<Rightarrow> obj_of v | None \<Rightarrow> PNone)"

text \<open>
  \<open>x[:n]\<close> followed by iteration, on a dynamically typed element of the input list:
  a \<open>str\<close> yields its characters as strings of length one, a list its elements;
  \<open>None\<close> and an \<open>int\<close> cannot be sliced.
\<close>

fun slice_tokens :: "nat \<Rightarrow> pyobj \<Rightarrow> py_error + pyobj list" where
  "slice_tokens n (PStr s) = Inr (map (\<lambda>c. PStr [c]) (take n s))"
| "slice_tokens n (PList xs) = Inr (take n xs)"
| "slice_tokens n v = Inl TypeError"

text \<open>The inner loop of \<open>read\<close>: one id per token, appended to \<open>ids\<close>.\<close>

fun read_tokens :: "vocab \<Rightarrow> vocab \<Rightarrow> pyobj list \<Rightarrow> pyobj list \<Rightarrow> py_error + pyobj list" where
  "read_tokens q2b_vocab word_vocab [] ids = Inr ids"
| "read_tokens q2b_vocab word_vocab (token # rest) ids =
     (case dict_get q2b_vocab token token of
        Inl e \<Rightarrow> Inl e
      | Inr token' \<Rightarrow>
          (case dict_get word_vocab token' (oov_token_id word_vocab) of
             Inl e \<Rightarrow> Inl e
           | Inr token_id \<Rightarrow> read_tokens q2b_vocab word_vocab rest (ids @ [token_id])))"

text \<open>The outer loop of \<open>read\<close>: for each input the pair \<open>(ids, lens)\<close> it yields.\<close>

fun read :: "nat \<Rightarrow> vocab \<Rightarrow> vocab \<Rightarrow> pyobj list \<Rightarrow> py_error + (pyobj list \<times> nat) list" where
  "read n q2b_vocab word_vocab [] = Inr []"
| "read n q2b_vocab word_vocab (input_tokens # inputs) =
     (case slice_tokens n input_tokens of
        Inl e \<Rightarrow> Inl e
      | Inr tokens \<Rightarrow>
          (case read_tokens q2b_vocab word_vocab tokens [] of
             Inl e \<Rightarrow> Inl e
           | Inr ids \<Rightarrow>
               (case read n q2b_vocab word_vocab inputs of
                  Inl e \<Rightarrow> Inl e
                | Inr more \<Rightarrow> Inr ((ids, length ids) # more))))"

text \<open>
  \<open>_preprocess\<close> up to the data loader: the checked input list (the \<open>'text'\<close> entry
  of the outputs) and the samples \<open>read\<close> produces for it.
\<close>

definition preprocess ::
  "(string \<rightharpoonup> nat) \<Rightarrow> vocab \<Rightarrow> vocab \<Rightarrow> pyobj \<Rightarrow> py_error + (pyobj list \<times> (pyobj list \<times> nat) list)" where
  "preprocess kwargs q2b_vocab word_vocab inputs0 =
     (case check_inputs inputs0 of
        Inl e \<Rightarrow> Inl e
      | Inr (PList inputs) \<Rightarrow>
          (case read (max_seq_len kwargs) q2b_vocab word_vocab inputs of
             Inl e \<Rightarrow> Inl e
           | Inr samples \<Rightarrow> Inr (inputs, samples))
      | Inr v \<Rightarrow> Inl TypeError)"

section \<open>LacTask.\_postprocess\<close>

text \<open>
  The state of the decode loop: the segments finished so far, the coarse tags emitted so
  far, and the word being accumulated (the source spells it \<open>parital_word\<close>).
\<close>

record decode_state =
  sent_out :: "string list"
  tags_out :: "string list"
  parital_word :: string

definition init_state :: decode_state where
  "init_state = \<lparr>sent_out = [], tags_out = [], parital_word = []\<rparr>"

text \<open>\<open>tag.split('-')[0]\<close>; \<open>py_split\<close> never returns the empty list.\<close>

definition coarse :: "string \<Rightarrow> string" where
  "coarse tag = hd (py_split (CHR ''-'') tag)"

text \<open>
  The condition \<open>tag.endswith("-B") or (tag == "O" and tags[ind - 1] != "O")\<close>, with
  Python's short-circuit evaluation: \<open>tags[ind - 1]\<close> is read only when the tag is
  \<open>"O"\<close> and does not end with \<open>"-B"\<close>.
\<close>

definition boundary :: "string list \<Rightarrow> nat \<Rightarrow> string \<Rightarrow> py_error + bool" where
  "boundary tags ind tag =
     (if endswith tag ''-B'' then Inr True
      else if tag = ''O'' then
        (case py_getitem tags (int ind - 1) of
           Inl e \<Rightarrow> Inl e
         | Inr prev \<Rightarrow> Inr (prev \<noteq> ''O''))
      else Inr False)"

text \<open>
  The loop \<open>for ind, tag in enumerate(tags)\<close>: \<open>ind\<close> is the index of the head of
  the remaining tags.
\<close>

fun decode_loop ::
  "string \<Rightarrow> string list \<Rightarrow> nat \<Rightarrow> string list \<Rightarrow> decode_state \<Rightarrow> py_error + decode_state" where
  "decode_loop sent tags ind [] st = Inr st"
| "decode_loop sent tags ind (tag # rest) st =
     (if parital_word st = [] then
        (case str_getitem sent (int ind) of
           Inl e \<Rightarrow> Inl e
         | Inr c \<Rightarrow>
             decode_loop sent tags (ind + 1) rest
               (st\<lparr>parital_word := c, tags_out := tags_out st @ [coarse tag]\<rparr>))
      else
        (case boundary tags ind tag of
           Inl e \<Rightarrow> Inl e
         | Inr True \<Rightarrow>
             (case str_getitem sent (int ind) of
                Inl e \<Rightarrow> Inl e
              | Inr c \<Rightarrow>
                  decode_loop sent tags (ind + 1) rest
                    (st\<lparr>sent_out := sent_out st @ [parital_word st],
                        tags_out := tags_out st @ [coarse tag],
                        parital_word := c\<rparr>))
         | Inr False \<Rightarrow>
             (case str_getitem sent (int ind) of
                Inl e \<Rightarrow> Inl e
              | Inr c \<Rightarrow>
                  decode_loop sent tags (ind + 1) rest
                    (st\<lparr>parital_word := parital_word st @ c\<rparr>))))"

text \<open>The record built for one sentence.\<close>

record single_result =
  res_text :: string
  res_segs :: "string list"
  res_tags :: "string list"

text \<open>
  The loop followed by \<open>if len(sent_out) < len(tags_out): sent_out.append(parital_word)\<close>
  and the construction of the record.
\<close>

definition decode :: "string \<Rightarrow> string list \<Rightarrow> py_error + single_result" where
  "decode sent tags =
     (case decode_loop sent tags 0 tags init_state of
        Inl e \<Rightarrow> Inl e
      | Inr st \<Rightarrow>
          Inr \<lparr>res_text = sent,
               res_segs = (if length (sent_out st) < length (tags_out st)
                           then sent_out st @ [parital_word st] else sent_out st),
               res_tags = tags_out st\<rparr>)"

text \<open>
  The comprehension \<open>[self._id2tag_dict[str(index)] for index in ...]\<close>: a missing key
  raises \<open>KeyError\<close>. The dict maps the string of a tag id to the tag.
\<close>

fun lookup_tags :: "(string \<rightharpoonup> string) \<Rightarrow> int list \<Rightarrow> py_error + string list" where
  "lookup_tags id2tag_dict [] = Inr []"
| "lookup_tags id2tag_dict (index # rest) =
     (case id2tag_dict (str_int index) of
        None \<Rightarrow> Inl KeyError
      | Some tag \<Rightarrow>
          (case lookup_tags id2tag_dict rest of
             Inl e \<Rightarrow> Inl e
           | Inr tags \<Rightarrow> Inr (tag # tags)))"

text \<open>
  The body of the sentence loop for given \<open>sents[i]\<close>, \<open>preds[i]\<close> and
  \<open>lengths[i]\<close>. A length is the \<open>len(ids)\<close> computed by \<open>read\<close>, a natural number,
  so the slice \<open>preds[i][:lengths[i]]\<close> is \<open>take\<close>.
\<close>

definition decode_sentence ::
  "(string \<rightharpoonup> string) \<Rightarrow> string \<Rightarrow> int list \<Rightarrow> nat \<Rightarrow> py_error + single_result" where
  "decode_sentence id2tag_dict sent pred len =
     (case lookup_tags id2tag_dict (take len pred) of
        Inl e \<Rightarrow> Inl e
      | Inr tags \<Rightarrow> decode sent tags)"

text \<open>The three parallel lists of the \<open>inputs\<close> dict.\<close>

record inputs =
  inp_text :: "string list"
  inp_result :: "int list list"
  inp_lens :: "nat list"

text \<open>
  One iteration of \<open>for sent_index in range(len(lengths))\<close>: the three lists are
  indexed at \<open>sent_index\<close> (\<open>preds\<close> and \<open>lengths\<close> first, \<open>sents\<close> after the tags
  have been looked up).
\<close>

definition sentence_at :: "(string \<rightharpoonup> string) \<Rightarrow> inputs \<Rightarrow> nat \<Rightarrow> py_error + single_result" where
  "sentence_at id2tag_dict inp sent_index =
     (case py_getitem (inp_result inp) (int sent_index) of
        Inl e \<Rightarrow> Inl e
      | Inr pred \<Rightarrow>
          (case py_getitem (inp_lens inp) (int sent_index) of
             Inl e \<Rightarrow> Inl e
           | Inr len \<Rightarrow>
               (case lookup_tags id2tag_dict (take len pred) of
                  Inl e \<Rightarrow> Inl e
                | Inr tags \<Rightarrow>
                    (case py_getitem (inp_text inp) (int sent_index) of
                       Inl e \<Rightarrow> Inl e
                     | Inr sent \<Rightarrow> decode sent tags))))"

fun postprocess_loop ::
  "(string \<rightharpoonup> string) \<Rightarrow> inputs \<Rightarrow> nat list \<Rightarrow> single_result list \<Rightarrow> py_error + single_result list" where
  "postprocess_loop id2tag_dict inp [] final_results = Inr final_results"
| "postprocess_loop id2tag_dict inp (sent_index # rest) final_results =
     (case sentence_at id2tag_dict inp sent_index of
        Inl e \<Rightarrow> Inl e
      | Inr single \<Rightarrow> postprocess_loop id2tag_dict inp rest (final_results @ [single]))"

definition postprocess :: "(string \<rightharpoonup> string) \<Rightarrow> inputs \<Rightarrow> py_error + single_result list" where
  "postprocess id2tag_dict inp =
     postprocess_loop id2tag_dict inp [0..<length (inp_lens inp)] []"

section \<open>The decode loop described by its cut points\<close>

text \<open>
  The indices at which, by the description of the loop, a new segment starts: index 0,
  an index whose tag ends with \<open>"-B"\<close>, and an index whose tag is \<open>"O"\<close> while the
  tag before it is not.
\<close>

definition new_seg :: "string list \<Rightarrow> nat \<Rightarrow> bool" where
  "new_seg tags i =
     (i = 0 \<or> endswith (tags ! i) ''-B'' \<or> (tags ! i = ''O'' \<and> tags ! (i - 1) \<noteq> ''O''))"

definition starts :: "string list \<Rightarrow> nat list" where
  "starts tags = filter (new_seg tags) [0..<length tags]"

text \<open>The offsets at which the strings of a list begin in their concatenation.\<close>

fun offsets_from :: "nat \<Rightarrow> string list \<Rightarrow> nat list" where
  "offsets_from n [] = []"
| "offsets_from n (s # ss) = n # offsets_from (n + length s) ss"

text \<open>
  One iteration of the decode loop without its error branches, for an index that is in
  range of the sentence and of the tags.
\<close>

definition next_state :: "string \<Rightarrow> string list \<Rightarrow> nat \<Rightarrow> decode_state \<Rightarrow> decode_state" where
  "next_state sent tags ind st =
     (if parital_word st = [] then
        st\<lparr>parital_word := [sent ! ind], tags_out := tags_out st @ [coarse (tags ! ind)]\<rparr>
      else if new_seg tags ind then
        st\<lparr>sent_out := sent_out st @ [parital_word st],
           tags_out := tags_out st @ [coarse (tags ! ind)],
           parital_word := [sent ! ind]\<rparr>
      else st\<lparr>parital_word := parital_word st @ [sent ! ind]\<rparr>)"

text \<open>
  The invariant of the decode loop before the iteration at index \<open>ind\<close>: the finished
  segments and the accumulating word spell the first \<open>ind\<close> characters, no finished
  segment is empty, and the segments begin exactly at the cut points below \<open>ind\<close>,
  each with the coarse tag of its first index.
\<close>

definition loop_inv :: "string \<Rightarrow> string list \<Rightarrow> nat \<Rightarrow> decode_state \<Rightarrow> bool" where
  "loop_inv sent tags ind st =
     (ind \<le> length sent \<and> ind \<le> length tags \<and>
      concat (sent_out st) @ parital_word st = take ind sent \<and>
      ((parital_word st = []) = (ind = 0)) \<and>
      [] \<notin> set (sent_out st) \<and>
      tags_out st = map (\<lambda>i. coarse (tags ! i)) (filter (new_seg tags) [0..<ind]) \<and>
      offsets_from 0 (sent_out st) @ (if ind = 0 then [] else [length (concat (sent_out st))])
        = filter (new_seg tags) [0..<ind])"

section \<open>The encoding and the vocabulary file, described\<close>

text \<open>\<open>q2b_vocab.get(c, c)\<close> for a character \<open>c\<close>: its q2b-normalized form.\<close>

definition q2b_normalized :: "vocab \<Rightarrow> char \<Rightarrow> pyobj" where
  "q2b_normalized q2b_vocab c = (case q2b_vocab [c] of Some v \<Rightarrow> obj_of v | None \<Rightarrow> PStr [c])"

text \<open>
  The word-vocabulary id of a normalized token: its entry, and the id of the \<open>"OOV"\<close>
  entry when it has none.
\<close>

definition word_id :: "vocab \<Rightarrow> pyobj \<Rightarrow> pyobj" where
  "word_id word_vocab token =
     (case token of
        PStr k \<Rightarrow> (case word_vocab k of Some v \<Rightarrow> obj_of v | None \<Rightarrow> oov_token_id word_vocab)
      | _ \<Rightarrow> oov_token_id word_vocab)"

text \<open>A list all of whose elements are \<open>str\<close>.\<close>

fun is_str_list :: "pyobj \<Rightarrow> bool" where
  "is_str_list (PList xs) = list_all is_str xs"
| "is_str_list v = False"






section \<open>Indexing and the loop invariant\<close>

lemma py_getitem_nat:
  "py_getitem xs (int i) = (if i < length xs then Inr (xs ! i) else Inl IndexError)"
  by (simp add: py_getitem_def)

lemma str_getitem_nat:
  "str_getitem s (int i) = (if i < length s then Inr [s ! i] else Inl IndexError)"
  by (simp add: str_getitem_def py_getitem_nat)

lemma py_getitem_pred:
  "0 < i \<Longrightarrow> i \<le> length xs \<Longrightarrow> py_getitem xs (int i - 1) = Inr (xs ! (i - 1))"
  using py_getitem_nat [of xs "i - 1"] by (simp add: of_nat_diff)

lemma boundary_new_seg:
  "0 < ind \<Longrightarrow> ind < length tags \<Longrightarrow> boundary tags ind (tags ! ind) = Inr (new_seg tags ind)"
  by (simp add: boundary_def new_seg_def py_getitem_pred)

lemma decode_loop_step:
  assumes "loop_inv sent tags ind st" "ind < length tags"
  shows "decode_loop sent tags ind (tags ! ind # rest) st =
     (if ind < length sent then decode_loop sent tags (Suc ind) rest (next_state sent tags ind st)
      else Inl IndexError)"
proof (cases "parital_word st = []")
  case True
  then show ?thesis by (simp add: str_getitem_nat next_state_def)
next
  case False
  with assms have pos: "0 < ind" by (simp add: loop_inv_def)
  from pos assms(2) have b: "boundary tags ind (tags ! ind) = Inr (new_seg tags ind)"
    by (rule boundary_new_seg)
  show ?thesis using False b by (simp add: str_getitem_nat next_state_def)
qed

lemma offsets_from_snoc:
  "offsets_from n (xs @ [p]) = offsets_from n xs @ [n + length (concat xs)]"
  by (induction xs arbitrary: n) simp_all

lemma length_offsets_from: "length (offsets_from n xs) = length xs"
  by (induction xs arbitrary: n) simp_all

lemma new_seg_0: "new_seg tags 0"
  by (simp add: new_seg_def)

lemma offsets_from_Nil: "(offsets_from n xs = []) = (xs = [])"
  by (cases xs) simp_all

lemma loop_inv_step:
  assumes inv: "loop_inv sent tags ind st" and t: "ind < length tags" and s: "ind < length sent"
  shows "loop_inv sent tags (Suc ind) (next_state sent tags ind st)"
proof (cases "ind = 0")
  case True
  with inv have "parital_word st = []" "sent_out st = []" "tags_out st = []"
    by (simp_all add: loop_inv_def offsets_from_Nil)
  with True s t show ?thesis
    by (simp add: loop_inv_def next_state_def new_seg_0 take_Suc_conv_app_nth Suc_le_eq)
next
  case False
  with inv have p: "parital_word st \<noteq> []" by (simp add: loop_inv_def)
  from inv have c: "concat (sent_out st) @ parital_word st = take ind sent"
    by (simp add: loop_inv_def)
  then have len: "length (concat (sent_out st)) + length (parital_word st) = ind"
    using s by (metis length_append length_take min.absorb2 less_imp_le_nat)
  show ?thesis
  proof (cases "new_seg tags ind")
    case True
    with inv False p c len s t show ?thesis
      by (simp add: loop_inv_def next_state_def take_Suc_conv_app_nth offsets_from_snoc)
  next
    case nb: False
    with inv False p c len s t show ?thesis
      by (simp add: loop_inv_def next_state_def take_Suc_conv_app_nth)
  qed
qed

lemma loop_inv_init: "loop_inv sent tags 0 init_state"
  by (simp add: loop_inv_def init_state_def)

lemma decode_loop_run:
  assumes "loop_inv sent tags ind st" "drop ind tags = rest"
  shows "if length tags \<le> length sent
         then (\<exists>st'. decode_loop sent tags ind rest st = Inr st' \<and> loop_inv sent tags (length tags) st')
         else decode_loop sent tags ind rest st = Inl IndexError"
  using assms
proof (induction rest arbitrary: ind st)
  case Nil
  then have "ind = length tags" by (simp add: loop_inv_def)
  with Nil show ?case by (auto simp: loop_inv_def)
next
  case (Cons tag rest)
  from Cons.prems(2) have lt: "ind < length tags"
    by (metis drop_eq_Nil list.distinct(1) not_le)
  with Cons.prems(2) have tag: "tag = tags ! ind" and rest: "drop (Suc ind) tags = rest"
    by (simp_all add: Cons_nth_drop_Suc [symmetric])
  have step: "decode_loop sent tags ind (tag # rest) st =
     (if ind < length sent then decode_loop sent tags (Suc ind) rest (next_state sent tags ind st)
      else Inl IndexError)"
    unfolding tag using Cons.prems(1) lt by (rule decode_loop_step)
  show ?case
  proof (cases "ind < length sent")
    case True
    have "loop_inv sent tags (Suc ind) (next_state sent tags ind st)"
      using Cons.prems(1) lt True by (rule loop_inv_step)
    from Cons.IH [OF this rest] step True show ?thesis by simp
  next
    case False
    with lt step show ?thesis by simp
  qed
qed

lemma decode_fail: "\<not> length tags \<le> length sent \<Longrightarrow> decode sent tags = Inl IndexError"
  using decode_loop_run [OF loop_inv_init, of tags tags sent] by (simp add: decode_def)

lemma decode_ok:
  assumes "length tags \<le> length sent"
  shows "\<exists>sgs. decode sent tags =
            Inr \<lparr>res_text = sent, res_segs = sgs,
                 res_tags = map (\<lambda>i. coarse (tags ! i)) (starts tags)\<rparr> \<and>
          concat sgs = take (length tags) sent \<and> [] \<notin> set sgs \<and>
          offsets_from 0 sgs = starts tags"
proof -
  from decode_loop_run [OF loop_inv_init, of tags tags sent] assms
  obtain st where run: "decode_loop sent tags 0 tags init_state = Inr st"
    and inv: "loop_inv sent tags (length tags) st"
    by auto
  show ?thesis
  proof (cases "tags = []")
    case True
    with run have "st = init_state" by simp
    with True run show ?thesis by (simp add: decode_def init_state_def starts_def)
  next
    case False
    from inv have t: "tags_out st = map (\<lambda>i. coarse (tags ! i)) (starts tags)"
      and o: "offsets_from 0 (sent_out st) @ [length (concat (sent_out st))] = starts tags"
      and c: "concat (sent_out st) @ parital_word st = take (length tags) sent"
      and p: "parital_word st \<noteq> []" and n: "[] \<notin> set (sent_out st)"
      using False by (simp_all add: loop_inv_def starts_def)
    have "length (tags_out st) = Suc (length (sent_out st))"
      using arg_cong [OF o, of length] t by (simp add: length_offsets_from)
    then have "decode sent tags =
        Inr \<lparr>res_text = sent, res_segs = sent_out st @ [parital_word st],
             res_tags = map (\<lambda>i. coarse (tags ! i)) (starts tags)\<rparr>"
      using run t by (simp add: decode_def)
    moreover have "offsets_from 0 (sent_out st @ [parital_word st]) = starts tags"
      using o by (simp add: offsets_from_snoc)
    ultimately show ?thesis using c p n by auto
  qed
qed

lemma decode_Inr_length: "decode sent tags = Inr r \<Longrightarrow> length tags \<le> length sent"
  using decode_fail [of tags sent] by (cases "length tags \<le> length sent") simp_all

lemma offsets_from_nth:
  "k < length xss \<Longrightarrow> offsets_from n xss ! k = n + length (concat (take k xss))"
proof (induction xss arbitrary: n k)
  case Nil
  then show ?case by simp
next
  case (Cons xs xss)
  then show ?case by (cases k) simp_all
qed

lemma nth_concat_slice:
  assumes "k < length xss"
  shows "xss ! k = take (length (xss ! k)) (drop (length (concat (take k xss))) (concat xss))"
proof -
  have "concat xss = concat (take k xss) @ xss ! k @ concat (drop (Suc k) xss)"
    using assms by (subst id_take_nth_drop [OF assms]) simp
  then show ?thesis by simp
qed

lemma split_acc_hd: "hd (split_acc sep acc s) = acc @ takeWhile (\<lambda>c. c \<noteq> sep) s"
  by (induction s arbitrary: acc) simp_all


lemma coarse_takeWhile: "coarse tag = takeWhile (\<lambda>c. c \<noteq> CHR ''-'') tag"
  by (simp add: coarse_def py_split_def split_acc_hd)

lemma lookup_tags_ok:
  "\<forall>p\<in>set ps. str_int p \<in> dom d \<Longrightarrow> \<exists>tags. lookup_tags d ps = Inr tags \<and> length tags = length ps"
  by (induction ps) auto

lemma lookup_tags_set:
  "lookup_tags d ps = Inr tags \<Longrightarrow> length tags = length ps \<and> (\<forall>p\<in>set ps. str_int p \<in> dom d)"
  by (induction ps arbitrary: tags) (auto split: option.splits sum.splits)

lemma lookup_tags_fail:
  "lookup_tags d ps = Inl e \<Longrightarrow> e = KeyError"
  by (induction ps) (auto split: option.splits sum.splits)

section \<open>Segments as slices of the sentence\<close>

lemma length_concat_take_le: "length (concat (take j xss)) \<le> length (concat xss)"
proof -
  have "length (concat xss) = length (concat (take j xss @ drop j xss))" by simp
  also have "\<dots> = length (concat (take j xss)) + length (concat (drop j xss))"
    by (simp only: concat_append length_append)
  finally show ?thesis by simp
qed

lemma length_concat_take_Suc:
  "k < length xss \<Longrightarrow>
   length (concat (take (Suc k) xss)) = length (concat (take k xss)) + length (xss ! k)"
  by (simp add: take_Suc_conv_app_nth)

lemma offsets_from_end:
  assumes "k < length xss"
  shows "(offsets_from 0 xss @ [length (concat xss)]) ! Suc k = length (concat (take (Suc k) xss))"
proof (cases "Suc k < length xss")
  case True
  then show ?thesis by (simp add: nth_append length_offsets_from offsets_from_nth)
next
  case False
  with assms have "Suc k = length xss" by simp
  then show ?thesis by (simp add: nth_append length_offsets_from)
qed

lemma segment_slice:
  assumes k: "k < length sgs" and c: "concat sgs = take L sent" and L: "L \<le> length sent"
  shows "sgs ! k =
     take ((offsets_from 0 sgs @ [L]) ! Suc k - offsets_from 0 sgs ! k)
          (drop (offsets_from 0 sgs ! k) sent)"
proof -
  let ?s = "length (concat (take k sgs))"
  let ?e = "length (concat (take (Suc k) sgs))"
  have len: "length (concat sgs) = L" using c L by simp
  have s: "offsets_from 0 sgs ! k = ?s" using k by (simp add: offsets_from_nth)
  have e: "(offsets_from 0 sgs @ [L]) ! Suc k = ?e"
    using offsets_from_end [OF k] len by simp
  have d: "?e - ?s = length (sgs ! k)" using k by (simp add: length_concat_take_Suc)
  have eL: "?e \<le> L" using length_concat_take_le [of "Suc k" sgs] len by simp
  have "sgs ! k = take (?e - ?s) (drop ?s (take L sent))"
    using nth_concat_slice [OF k] c d by simp
  also have "\<dots> = take (?e - ?s) (drop ?s sent)"
    using eL by (simp add: drop_take min_def)
  finally show ?thesis using s e by simp
qed

text \<open>Concrete runs, used where a theorem is applied to an input.\<close>

lemma decode_example:
  "decode ''abcde'' [''n-B'', ''n-I'', ''O'', ''O'', ''v-B''] =
     Inr \<lparr>res_text = ''abcde'', res_segs = [''ab'', ''cd'', ''e''], res_tags = [''n'', ''O'', ''v'']\<rparr>"
  by (simp add: decode_def init_state_def str_getitem_def py_getitem_def boundary_def
      endswith_def coarse_def py_split_def)

lemma starts_example: "starts [''n-B'', ''n-I'', ''O'', ''O'', ''v-B''] = [0, 2, 4]"
  by (simp add: starts_def new_seg_def endswith_def upt_rec)

lemma decode_sentence_example:
  "decode_sentence [''0'' \<mapsto> ''n-B'', ''1'' \<mapsto> ''n-I'', ''2'' \<mapsto> ''O''] ''abc'' [0, 1, 2, 0] 3 =
     Inr \<lparr>res_text = ''abc'', res_segs = [''ab'', ''c''], res_tags = [''n'', ''O'']\<rparr>"
  by (simp add: decode_sentence_def str_int_def digit_char_def decode_def init_state_def
      str_getitem_def py_getitem_def boundary_def endswith_def coarse_def py_split_def)

lemma lookup_tags_example: "lookup_tags [''0'' \<mapsto> ''n-B'', ''1'' \<mapsto> ''n-I'', ''2'' \<mapsto> ''O''] (take 3 [0, 1, 2, 0]) = Inr [''n-B'', ''n-I'', ''O'']"
  by (simp add: str_int_def digit_char_def)

section \<open>The decode loop: claims C1, C2, C3 and C6\<close>

text \<open>
  Claim C1. For a sentence \<open>sent\<close> and tags with \<open>len(tags) \<le> len(sent)\<close> the decode
  loop returns, and its segments are cut exactly at the indices of \<open>starts tags\<close>: index 0,
  every index whose tag ends with \<open>"-B"\<close>, and every index whose tag is \<open>"O"\<close> while the
  previous tag is not. Segment \<open>k\<close> holds the characters of \<open>sent\<close> from the \<open>k\<close>-th
  cut point up to the next one; the last segment, the one still accumulating when the
  loop ends, runs up to \<open>len(tags)\<close>.
\<close>

theorem decode_starts_segments_at_cut_points:
  assumes "length tags \<le> length sent"
  shows "\<exists>r. decode sent tags = Inr r \<and>
           length (res_segs r) = length (starts tags) \<and>
           (\<forall>k<length (starts tags).
              res_segs r ! k =
                take ((starts tags @ [length tags]) ! Suc k - starts tags ! k)
                     (drop (starts tags ! k) sent))"
proof -
  from decode_ok [OF assms] obtain sgs where
    r: "decode sent tags =
          Inr \<lparr>res_text = sent, res_segs = sgs,
               res_tags = map (\<lambda>i. coarse (tags ! i)) (starts tags)\<rparr>"
    and c: "concat sgs = take (length tags) sent"
    and o: "offsets_from 0 sgs = starts tags"
    by blast
  have n: "length sgs = length (starts tags)"
    using arg_cong [OF o, of length] by (simp add: length_offsets_from)
  have "\<forall>k<length (starts tags).
          sgs ! k = take ((starts tags @ [length tags]) ! Suc k - starts tags ! k)
                         (drop (starts tags ! k) sent)"
    using segment_slice [OF _ c assms] n o by simp
  with r n show ?thesis by simp
qed

theorem decode_starts_segments_at_cut_points_witness:
  "decode ''abcde'' [''n-B'', ''n-I'', ''O'', ''O'', ''v-B''] =
     Inr \<lparr>res_text = ''abcde'', res_segs = [''ab'', ''cd'', ''e''], res_tags = [''n'', ''O'', ''v'']\<rparr> \<and>
   starts [''n-B'', ''n-I'', ''O'', ''O'', ''v-B''] = [0, 2, 4] \<and>
   [''ab'', ''cd'', ''e''] ! 1 = take (4 - 2) (drop 2 ''abcde'')"
proof -
  have le: "length [''n-B'', ''n-I'', ''O'', ''O'', ''v-B''] \<le> length ''abcde''" by simp
  from decode_starts_segments_at_cut_points [OF le] obtain r where
    r: "decode ''abcde'' [''n-B'', ''n-I'', ''O'', ''O'', ''v-B''] = Inr r" and
    a: "\<forall>k<length (starts [''n-B'', ''n-I'', ''O'', ''O'', ''v-B'']).
          res_segs r ! k =
            take ((starts [''n-B'', ''n-I'', ''O'', ''O'', ''v-B''] @ [length [''n-B'', ''n-I'', ''O'', ''O'', ''v-B'']]) ! Suc k - starts [''n-B'', ''n-I'', ''O'', ''O'', ''v-B''] ! k) (drop (starts [''n-B'', ''n-I'', ''O'', ''O'', ''v-B''] ! k) ''abcde'')"
    by blast
  from r have r': "res_segs r = [''ab'', ''cd'', ''e'']" by (auto simp add: decode_example)
  from a [rule_format, of 1] show ?thesis
    unfolding r' by (simp add: decode_example starts_example)
qed

text \<open>
  Claim C2. For \<open>L = len(tags) \<le> len(sent)\<close> the segments produced by the decode loop,
  concatenated in order, are \<open>sent[:L]\<close>.
\<close>

theorem decode_segments_concat:
  assumes "length tags \<le> length sent"
  shows "\<exists>r. decode sent tags = Inr r \<and> concat (res_segs r) = take (length tags) sent"
  using decode_ok [OF assms] by auto

theorem decode_segments_concat_witness:
  "decode ''abcde'' [''n-B'', ''n-I'', ''O'', ''O'', ''v-B''] =
     Inr \<lparr>res_text = ''abcde'', res_segs = [''ab'', ''cd'', ''e''], res_tags = [''n'', ''O'', ''v'']\<rparr> \<and>
   concat [''ab'', ''cd'', ''e''] = take (length [''n-B'', ''n-I'', ''O'', ''O'', ''v-B'']) ''abcde''"
  using decode_segments_concat [of "[''n-B'', ''n-I'', ''O'', ''O'', ''v-B'']" "''abcde''"]
  by (simp add: decode_example)

lemma decode_sentence_Inr:
  assumes "decode_sentence id2tag sent pred len = Inr r"
  shows "\<exists>tags. lookup_tags id2tag (take len pred) = Inr tags \<and> decode sent tags = Inr r"
  using assms by (simp add: decode_sentence_def split: sum.splits)

text \<open>
  Claim C3. The record of a sentence has as many \<open>'tags'\<close> as \<open>'segs'\<close>; segment \<open>k\<close>
  is not empty and sits in the sentence at the index where the segments before it end, and
  the \<open>k\<close>-th entry of \<open>'tags'\<close> is the coarse form of the per-character tag at that index.
\<close>

theorem tags_aligned_with_segments:
  assumes "decode_sentence id2tag sent pred len = Inr r"
  shows "length (res_segs r) = length (res_tags r) \<and>
         (\<exists>tags. lookup_tags id2tag (take len pred) = Inr tags \<and>
            (\<forall>k<length (res_segs r).
               res_segs r ! k \<noteq> [] \<and>
               res_segs r ! k =
                 take (length (res_segs r ! k))
                      (drop (length (concat (take k (res_segs r)))) sent) \<and>
               res_tags r ! k = coarse (tags ! length (concat (take k (res_segs r))))))"
proof -
  from decode_sentence_Inr [OF assms] obtain tags where
    l: "lookup_tags id2tag (take len pred) = Inr tags" and d: "decode sent tags = Inr r"
    by blast
  from d have le: "length tags \<le> length sent" by (rule decode_Inr_length)
  from decode_ok [OF le] d obtain sgs where
    r: "r = \<lparr>res_text = sent, res_segs = sgs,
             res_tags = map (\<lambda>i. coarse (tags ! i)) (starts tags)\<rparr>"
    and c: "concat sgs = take (length tags) sent"
    and ne: "[] \<notin> set sgs"
    and o: "offsets_from 0 sgs = starts tags"
    by auto
  have n: "length sgs = length (starts tags)"
    using arg_cong [OF o, of length] by (simp add: length_offsets_from)
  have "\<forall>k<length sgs.
          sgs ! k \<noteq> [] \<and>
          sgs ! k = take (length (sgs ! k)) (drop (length (concat (take k sgs))) sent) \<and>
          map (\<lambda>i. coarse (tags ! i)) (starts tags) ! k = coarse (tags ! length (concat (take k sgs)))"
  proof (intro allI impI conjI)
    fix k assume k: "k < length sgs"
    then show "sgs ! k \<noteq> []" using ne by (metis nth_mem)
    have s: "starts tags ! k = length (concat (take k sgs))"
      using k o offsets_from_nth [OF k, of 0] by simp
    show "map (\<lambda>i. coarse (tags ! i)) (starts tags) ! k = coarse (tags ! length (concat (take k sgs)))"
      using k n s by simp
    have e: "length (concat (take k sgs)) + length (sgs ! k) \<le> length tags"
      using length_concat_take_le [of "Suc k" sgs] length_concat_take_Suc [OF k] c le by simp
    have "sgs ! k = take (length (sgs ! k)) (drop (length (concat (take k sgs))) (take (length tags) sent))"
      using nth_concat_slice [OF k] c by simp
    also have "\<dots> = take (length (sgs ! k)) (drop (length (concat (take k sgs))) sent)"
      using e by (simp add: drop_take min_def)
    finally show "sgs ! k = take (length (sgs ! k)) (drop (length (concat (take k sgs))) sent)" .
  qed
  with l r n show ?thesis by auto
qed

theorem tags_aligned_with_segments_witness:
  "decode_sentence [''0'' \<mapsto> ''n-B'', ''1'' \<mapsto> ''n-I'', ''2'' \<mapsto> ''O''] ''abc'' [0, 1, 2, 0] 3 =
     Inr \<lparr>res_text = ''abc'', res_segs = [''ab'', ''c''], res_tags = [''n'', ''O'']\<rparr> \<and>
   length [''ab'', ''c''] = length [''n'', ''O''] \<and>
   [''n'', ''O''] ! 1 = coarse ([''n-B'', ''n-I'', ''O''] ! length (concat (take 1 [''ab'', ''c''])))"
proof -
  from tags_aligned_with_segments [OF decode_sentence_example] obtain tags where
    l: "lookup_tags [''0'' \<mapsto> ''n-B'', ''1'' \<mapsto> ''n-I'', ''2'' \<mapsto> ''O''] (take 3 [0, 1, 2, 0]) = Inr tags" and
    a: "\<forall>k<length [''ab'', ''c'']. [''n'', ''O''] ! k =
          coarse (tags ! length (concat (take k [''ab'', ''c''])))"
    by auto
  from l have t: "tags = [''n-B'', ''n-I'', ''O'']" unfolding lookup_tags_example by simp
  from a [rule_format, of 1] show ?thesis
    unfolding t by (simp add: decode_sentence_example)
qed

text \<open>
  Claim C6. Every entry of the output \<open>'tags'\<close> is the part of a per-character tag before
  its first \<open>'-'\<close>, and that tag itself when it contains no \<open>'-'\<close>.
\<close>

theorem output_tags_are_coarse:
  assumes "decode_sentence id2tag sent pred len = Inr r"
  shows "\<exists>tags. lookup_tags id2tag (take len pred) = Inr tags \<and>
           (\<forall>t\<in>set (res_tags r). \<exists>tag\<in>set tags.
              t = takeWhile (\<lambda>c. c \<noteq> CHR ''-'') tag \<and> (CHR ''-'' \<notin> set tag \<longrightarrow> t = tag))"
proof -
  from decode_sentence_Inr [OF assms] obtain tags where
    l: "lookup_tags id2tag (take len pred) = Inr tags" and d: "decode sent tags = Inr r"
    by blast
  from d have le: "length tags \<le> length sent" by (rule decode_Inr_length)
  from decode_ok [OF le] d have
    t: "res_tags r = map (\<lambda>i. coarse (tags ! i)) (starts tags)" by auto
  have "\<forall>t\<in>set (res_tags r). \<exists>tag\<in>set tags.
          t = takeWhile (\<lambda>c. c \<noteq> CHR ''-'') tag \<and> (CHR ''-'' \<notin> set tag \<longrightarrow> t = tag)"
  proof
    fix t assume "t \<in> set (res_tags r)"
    with t obtain i where i: "i \<in> set (starts tags)" and ti: "t = coarse (tags ! i)" by auto
    from i have "i < length tags" by (simp add: starts_def)
    then have "tags ! i \<in> set tags" by simp
    moreover have "t = takeWhile (\<lambda>c. c \<noteq> CHR ''-'') (tags ! i)"
      using ti by (simp add: coarse_takeWhile)
    moreover have "CHR ''-'' \<notin> set (tags ! i) \<longrightarrow> t = tags ! i"
      using ti by (auto simp add: coarse_takeWhile takeWhile_eq_all_conv)
    ultimately show "\<exists>tag\<in>set tags.
          t = takeWhile (\<lambda>c. c \<noteq> CHR ''-'') tag \<and> (CHR ''-'' \<notin> set tag \<longrightarrow> t = tag)"
      by blast
  qed
  with l show ?thesis by blast
qed

theorem output_tags_are_coarse_witness:
  "decode_sentence [''0'' \<mapsto> ''n-B'', ''1'' \<mapsto> ''n-I'', ''2'' \<mapsto> ''O''] ''abc'' [0, 1, 2, 0] 3 =
     Inr \<lparr>res_text = ''abc'', res_segs = [''ab'', ''c''], res_tags = [''n'', ''O'']\<rparr> \<and>
   (\<exists>tag\<in>set [''n-B'', ''n-I'', ''O'']. ''n'' = takeWhile (\<lambda>c. c \<noteq> CHR ''-'') tag) \<and>
   (\<exists>tag\<in>set [''n-B'', ''n-I'', ''O'']. ''O'' = tag)"
proof -
  from output_tags_are_coarse [OF decode_sentence_example] obtain tags where
    l: "lookup_tags [''0'' \<mapsto> ''n-B'', ''1'' \<mapsto> ''n-I'', ''2'' \<mapsto> ''O''] (take 3 [0, 1, 2, 0]) = Inr tags" and
    a: "\<forall>t\<in>set [''n'', ''O'']. \<exists>tag\<in>set tags.
          t = takeWhile (\<lambda>c. c \<noteq> CHR ''-'') tag \<and> (CHR ''-'' \<notin> set tag \<longrightarrow> t = tag)"
    by auto
  from l have t: "tags = [''n-B'', ''n-I'', ''O'']" unfolding lookup_tags_example by simp
  from a show ?thesis
    unfolding t by (simp add: decode_sentence_example)
qed

section \<open>The sentence loop: claims C7, C8 and C9\<close>

lemma postprocess_loop_Inr:
  "(postprocess_loop d inp idxs acc = Inr rs) =
   (\<exists>rs'. rs = acc @ rs' \<and> list_all2 (\<lambda>i r. sentence_at d inp i = Inr r) idxs rs')"
proof (induction idxs arbitrary: acc)
  case Nil
  then show ?case by auto
next
  case (Cons i idxs)
  show ?case
  proof (cases "sentence_at d inp i")
    case (Inl e)
    then show ?thesis by (simp add: list_all2_Cons1)
  next
    case (Inr r)
    then show ?thesis by (auto simp: Cons.IH list_all2_Cons1)
  qed
qed

lemma postprocess_Inr:
  "(postprocess d inp = Inr rs) =
   (length rs = length (inp_lens inp) \<and>
    (\<forall>i<length (inp_lens inp). sentence_at d inp i = Inr (rs ! i)))"
  by (auto simp add: postprocess_def postprocess_loop_Inr list_all2_conv_all_nth)

lemma sentence_at_in_range:
  assumes "i < length (inp_result inp)" "i < length (inp_lens inp)" "i < length (inp_text inp)"
  shows "sentence_at d inp i =
     decode_sentence d (inp_text inp ! i) (inp_result inp ! i) (inp_lens inp ! i)"
  using assms
  by (simp add: sentence_at_def decode_sentence_def py_getitem_nat split: sum.splits)

lemma decode_res_text: "decode sent tags = Inr r \<Longrightarrow> res_text r = sent"
  by (auto simp add: decode_def split: sum.splits)

lemma decode_sentence_res_text: "decode_sentence d sent pred len = Inr r \<Longrightarrow> res_text r = sent"
  by (auto simp add: decode_sentence_def decode_res_text split: sum.splits)

lemma decode_sentence_example_empty:
  "decode_sentence [''0'' \<mapsto> ''n-B'', ''1'' \<mapsto> ''n-I'', ''2'' \<mapsto> ''O''] '''' [0, 0, 0, 0] 0 =
     Inr \<lparr>res_text = '''', res_segs = [], res_tags = []\<rparr>"
  by (simp add: decode_sentence_def decode_def init_state_def)

text \<open>
  Claim C7. With the three lists of the same length \<open>n\<close>, \<open>_postprocess\<close> returns a
  list exactly when every sentence decodes, and then record \<open>i\<close> of its \<open>n\<close> records is
  the decode of \<open>text[i]\<close>, \<open>result[i]\<close> and \<open>lens[i]\<close> alone, in the order of the
  inputs, with \<open>'text'\<close> the \<open>i\<close>-th input string.
\<close>

theorem postprocess_is_per_sentence_map:
  assumes "length (inp_text inp) = n" "length (inp_result inp) = n" "length (inp_lens inp) = n"
  shows "((postprocess id2tag inp = Inr rs) =
          (length rs = n \<and>
           (\<forall>i<n. decode_sentence id2tag (inp_text inp ! i) (inp_result inp ! i) (inp_lens inp ! i)
                     = Inr (rs ! i)))) \<and>
         (postprocess id2tag inp = Inr rs \<longrightarrow> map res_text rs = inp_text inp)"
proof -
  have eq: "(postprocess id2tag inp = Inr rs) =
          (length rs = n \<and>
           (\<forall>i<n. decode_sentence id2tag (inp_text inp ! i) (inp_result inp ! i) (inp_lens inp ! i)
                     = Inr (rs ! i)))"
    using assms by (auto simp add: postprocess_Inr sentence_at_in_range)
  have "map res_text rs = inp_text inp" if "postprocess id2tag inp = Inr rs"
  proof (rule nth_equalityI)
    from that eq assms show "length (map res_text rs) = length (inp_text inp)" by simp
  next
    fix i assume "i < length (map res_text rs)"
    with that eq show "map res_text rs ! i = inp_text inp ! i"
      by (auto simp add: decode_sentence_res_text)
  qed
  with eq show ?thesis by blast
qed

theorem postprocess_is_per_sentence_map_witness:
  "postprocess [''0'' \<mapsto> ''n-B'', ''1'' \<mapsto> ''n-I'', ''2'' \<mapsto> ''O'']
     \<lparr>inp_text = [''abc'', ''''], inp_result = [[0, 1, 2, 0], [0, 0, 0, 0]], inp_lens = [3, 0]\<rparr> =
   Inr [\<lparr>res_text = ''abc'', res_segs = [''ab'', ''c''], res_tags = [''n'', ''O'']\<rparr>,
        \<lparr>res_text = '''', res_segs = [], res_tags = []\<rparr>]"
  using postprocess_is_per_sentence_map
    [of "\<lparr>inp_text = [''abc'', ''''], inp_result = [[0, 1, 2, 0], [0, 0, 0, 0]], inp_lens = [3, 0]\<rparr>"
        "Suc (Suc 0)"
        "[''0'' \<mapsto> ''n-B'', ''1'' \<mapsto> ''n-I'', ''2'' \<mapsto> ''O'']"
        "[\<lparr>res_text = ''abc'', res_segs = [''ab'', ''c''], res_tags = [''n'', ''O'']\<rparr>,
          \<lparr>res_text = '''', res_segs = [], res_tags = []\<rparr>]"]
  by (simp add: All_less_Suc decode_sentence_example decode_sentence_example_empty)

text \<open>
  Claim C8. When every sentence index \<open>i\<close> of \<open>lens\<close> has its sentence and its
  predictions, \<open>lens[i] \<le> len(sents[i])\<close>, and the string of every prediction id in
  \<open>preds[i][:lens[i]]\<close> is a key of the id-to-tag dict, \<open>_postprocess\<close> returns its list
  of records: no indexing and no lookup raises.
\<close>

theorem postprocess_no_error:
  assumes "\<forall>i<length (inp_lens inp).
             i < length (inp_text inp) \<and> i < length (inp_result inp) \<and>
             inp_lens inp ! i \<le> length (inp_text inp ! i) \<and>
             (\<forall>p\<in>set (take (inp_lens inp ! i) (inp_result inp ! i)). str_int p \<in> dom id2tag)"
  shows "\<exists>rs. postprocess id2tag inp = Inr rs \<and> length rs = length (inp_lens inp)"
proof -
  have "\<exists>r. sentence_at id2tag inp i = Inr r" if i: "i < length (inp_lens inp)" for i
  proof -
    from assms i have t: "i < length (inp_text inp)" and p: "i < length (inp_result inp)"
      and le: "inp_lens inp ! i \<le> length (inp_text inp ! i)"
      and k: "\<forall>p\<in>set (take (inp_lens inp ! i) (inp_result inp ! i)). str_int p \<in> dom id2tag"
      by auto
    from lookup_tags_ok [OF k] obtain tags where
      l: "lookup_tags id2tag (take (inp_lens inp ! i) (inp_result inp ! i)) = Inr tags"
      and n: "length tags = length (take (inp_lens inp ! i) (inp_result inp ! i))"
      by blast
    from n le have "length tags \<le> length (inp_text inp ! i)" by simp
    from decode_ok [OF this] obtain r where "decode (inp_text inp ! i) tags = Inr r" by blast
    with l show ?thesis
      by (simp add: sentence_at_in_range [OF p i t] decode_sentence_def)
  qed
  then obtain f where f: "\<forall>i<length (inp_lens inp). sentence_at id2tag inp i = Inr (f i)"
    by metis
  then have "postprocess id2tag inp = Inr (map f [0..<length (inp_lens inp)])"
    by (simp add: postprocess_Inr)
  then show ?thesis by simp
qed

theorem postprocess_no_error_witness:
  "\<exists>rs. postprocess [''0'' \<mapsto> ''n-B'', ''1'' \<mapsto> ''n-I'', ''2'' \<mapsto> ''O'']
     \<lparr>inp_text = [''abc'', ''''], inp_result = [[0, 1, 2, 0], [0, 0, 0, 0]], inp_lens = [3, 0]\<rparr> = Inr rs
      \<and> length rs = 2"
  using postprocess_no_error
    [of "\<lparr>inp_text = [''abc'', ''''], inp_result = [[0, 1, 2, 0], [0, 0, 0, 0]], inp_lens = [3, 0]\<rparr>"
        "[''0'' \<mapsto> ''n-B'', ''1'' \<mapsto> ''n-I'', ''2'' \<mapsto> ''O'']"]
  by (simp add: All_less_Suc str_int_def digit_char_def numeral_2_eq_2)

text \<open>
  Claim C9. A sentence whose decoded tag list is empty gives the record with the original
  text and empty \<open>'segs'\<close> and \<open>'tags'\<close>, and no error; the empty input string is such a
  sentence, its encoding being no ids and length zero.
\<close>

theorem empty_tags_give_empty_record:
  "decode sent [] = Inr \<lparr>res_text = sent, res_segs = [], res_tags = []\<rparr> \<and>
   decode_sentence id2tag sent pred 0 = Inr \<lparr>res_text = sent, res_segs = [], res_tags = []\<rparr> \<and>
   read n q2b_vocab word_vocab [PStr ''''] = Inr [([], 0)] \<and>
   postprocess id2tag \<lparr>inp_text = [sent], inp_result = [pred], inp_lens = [0]\<rparr> =
     Inr [\<lparr>res_text = sent, res_segs = [], res_tags = []\<rparr>]"
  by (simp add: decode_def decode_sentence_def init_state_def postprocess_def sentence_at_def
      py_getitem_def)

section \<open>The input check and the encoding: claims C4 and C5\<close>

lemma dict_get_q2b: "dict_get q2b_vocab (PStr [c]) (PStr [c]) = Inr (q2b_normalized q2b_vocab c)"
  by (simp add: q2b_normalized_def)

lemma obj_of_not_list: "obj_of v \<noteq> PList xs"
  by (cases v) simp_all

lemma dict_get_word:
  "dict_get word_vocab (q2b_normalized q2b_vocab c) (oov_token_id word_vocab) =
     Inr (word_id word_vocab (q2b_normalized q2b_vocab c))"
proof (cases "q2b_vocab [c]")
  case None
  then show ?thesis by (simp add: q2b_normalized_def word_id_def)
next
  case (Some v)
  then show ?thesis by (cases v) (simp_all add: q2b_normalized_def word_id_def)
qed

lemma read_tokens_chars:
  "read_tokens q2b_vocab word_vocab (map (\<lambda>c. PStr [c]) cs) ids =
     Inr (ids @ map (\<lambda>c. word_id word_vocab (q2b_normalized q2b_vocab c)) cs)"
  by (induction cs arbitrary: ids) (simp_all add: dict_get_q2b dict_get_word del: dict_get.simps)

lemma read_strs:
  "read n q2b_vocab word_vocab (map PStr ss) =
     Inr (map (\<lambda>s. (map (\<lambda>c. word_id word_vocab (q2b_normalized q2b_vocab c)) (take n s),
                     length (take n s))) ss)"
  by (induction ss) (simp_all add: read_tokens_chars)

lemma is_str_list_conv: "is_str_list x = (\<exists>ss. x = PList (map PStr ss))"
proof
  assume "is_str_list x"
  then obtain xs where x: "x = PList xs" and a: "list_all is_str xs"
    by (cases x) simp_all
  have "\<exists>ss. xs = map PStr ss" using a
  proof (induction xs)
    case Nil
    then show ?case by simp
  next
    case (Cons y ys)
    then obtain ss where "ys = map PStr ss" by auto
    moreover from Cons.prems obtain s where "y = PStr s" by (cases y) simp_all
    ultimately have "y # ys = map PStr (s # ss)" by simp
    then show ?case by (rule exI)
  qed
  with x show "\<exists>ss. x = PList (map PStr ss)" by blast
next
  assume "\<exists>ss. x = PList (map PStr ss)"
  then show "is_str_list x" by (auto simp add: list_all_iff)
qed

text \<open>
  Claim C5. For an input string the encoding keeps the first \<open>max_seq_len\<close> characters
  (64 when the keyword arguments have no \<open>max_seq_len\<close>, whatever else they hold), maps each kept character to the
  word-vocabulary id of its q2b-normalized form, with the id of the \<open>"OOV"\<close> entry for a
  form that is not in the word vocabulary, and yields the number of kept characters as
  the length.
\<close>

theorem encoding_of_input_string:
  "preprocess kwargs q2b_vocab word_vocab (PStr s) =
     Inr ([PStr s],
          [(map (\<lambda>c. word_id word_vocab (q2b_normalized q2b_vocab c)) (take (max_seq_len kwargs) s),
            length (take (max_seq_len kwargs) s))]) \<and>
   read n q2b_vocab word_vocab (map PStr ss) =
     Inr (map (\<lambda>s. (map (\<lambda>c. word_id word_vocab (q2b_normalized q2b_vocab c)) (take n s),
                     length (take n s))) ss) \<and>
   (kwargs ''max_seq_len'' = None \<longrightarrow> max_seq_len kwargs = 64) \<and>
   (kwargs ''max_seq_len'' = Some m \<longrightarrow> max_seq_len kwargs = m) \<and>
   q2b_normalized q2b_vocab c =
     (case q2b_vocab [c] of Some v \<Rightarrow> obj_of v | None \<Rightarrow> PStr [c]) \<and>
   word_id word_vocab (PStr k) =
     (case word_vocab k of Some v \<Rightarrow> obj_of v
      | None \<Rightarrow> (case word_vocab ''OOV'' of Some v \<Rightarrow> obj_of v | None \<Rightarrow> PNone)) \<and>
   word_id word_vocab (PInt j) =
     (case word_vocab ''OOV'' of Some v \<Rightarrow> obj_of v | None \<Rightarrow> PNone) \<and>
   obj_of (VStr t) = PStr t \<and> obj_of (VInt i) = PInt i"
proof -
  have "read (max_seq_len kwargs) q2b_vocab word_vocab (map PStr [s]) =
     Inr (map (\<lambda>s. (map (\<lambda>c. word_id word_vocab (q2b_normalized q2b_vocab c)) (take (max_seq_len kwargs) s),
                     length (take (max_seq_len kwargs) s))) [s])"
    by (rule read_strs)
  then have "preprocess kwargs q2b_vocab word_vocab (PStr s) =
     Inr ([PStr s],
          [(map (\<lambda>c. word_id word_vocab (q2b_normalized q2b_vocab c)) (take (max_seq_len kwargs) s),
            length (take (max_seq_len kwargs) s))])"
    by (simp add: preprocess_def check_inputs_def)
  moreover have "kwargs ''max_seq_len'' = None \<longrightarrow> max_seq_len kwargs = 64"
    by (simp add: max_seq_len_def)
  moreover have "kwargs ''max_seq_len'' = Some m \<longrightarrow> max_seq_len kwargs = m"
    by (simp add: max_seq_len_def)
  moreover have "q2b_normalized q2b_vocab c =
     (case q2b_vocab [c] of Some v \<Rightarrow> obj_of v | None \<Rightarrow> PStr [c])"
    by (simp add: q2b_normalized_def)
  moreover have "word_id word_vocab (PStr k) =
     (case word_vocab k of Some v \<Rightarrow> obj_of v
      | None \<Rightarrow> (case word_vocab ''OOV'' of Some v \<Rightarrow> obj_of v | None \<Rightarrow> PNone))"
    by (simp add: word_id_def oov_token_id_def split: option.splits)
  moreover have "word_id word_vocab (PInt j) =
     (case word_vocab ''OOV'' of Some v \<Rightarrow> obj_of v | None \<Rightarrow> PNone)"
    by (simp add: word_id_def oov_token_id_def)
  moreover have "obj_of (VStr t) = PStr t \<and> obj_of (VInt i) = PInt i"
    by simp
  ultimately show ?thesis
    using read_strs [of n q2b_vocab word_vocab ss] by blast
qed

theorem encoding_of_input_string_witness:
  "max_seq_len [''emb_dim'' \<mapsto> 128, ''hidden_size'' \<mapsto> 128] = 64 \<and>
   preprocess [''emb_dim'' \<mapsto> 128, ''hidden_size'' \<mapsto> 128]
       [''a'' \<mapsto> VStr ''b''] [''b'' \<mapsto> VInt 5, ''OOV'' \<mapsto> VInt 9] (PStr ''ac'') =
     Inr ([PStr ''ac''], [([PInt 5, PInt 9], 2)]) \<and>
   preprocess [''emb_dim'' \<mapsto> 128, ''hidden_size'' \<mapsto> 128]
       [''a'' \<mapsto> VStr ''b''] [''b'' \<mapsto> VInt 5, ''OOV'' \<mapsto> VInt 9]
       (PStr (replicate 65 (CHR ''a''))) =
     Inr ([PStr (replicate 65 (CHR ''a''))], [(replicate 64 (PInt 5), 64)]) \<and>
   preprocess [''emb_dim'' \<mapsto> 128, ''max_seq_len'' \<mapsto> 1]
       [''a'' \<mapsto> VStr ''b''] [''b'' \<mapsto> VInt 5, ''OOV'' \<mapsto> VInt 9] (PStr ''ac'') =
     Inr ([PStr ''ac''], [([PInt 5], 1)])"
proof -
  let ?K = "[''emb_dim'' \<mapsto> 128, ''hidden_size'' \<mapsto> 128 :: nat]"
  let ?K1 = "[''emb_dim'' \<mapsto> 128, ''max_seq_len'' \<mapsto> 1 :: nat]"
  let ?Q = "[''a'' \<mapsto> VStr ''b'']"
  let ?W = "[''b'' \<mapsto> VInt 5, ''OOV'' \<mapsto> VInt 9]"
  have m: "max_seq_len ?K = 64"
    using encoding_of_input_string [where kwargs = ?K] by simp
  have m1: "max_seq_len ?K1 = 1"
    using encoding_of_input_string [where kwargs = ?K1 and m = 1] by simp
  have qa: "q2b_normalized ?Q (CHR ''a'') = PStr ''b''"
    using encoding_of_input_string [where q2b_vocab = ?Q and c = "CHR ''a''"] by simp
  have qc: "q2b_normalized ?Q (CHR ''c'') = PStr ''c''"
    using encoding_of_input_string [where q2b_vocab = ?Q and c = "CHR ''c''"] by simp
  have wb: "word_id ?W (PStr ''b'') = PInt 5"
    using encoding_of_input_string [where word_vocab = ?W and k = "''b''"] by simp
  have wc: "word_id ?W (PStr ''c'') = PInt 9"
    using encoding_of_input_string [where word_vocab = ?W and k = "''c''"] by simp
  have "preprocess ?K ?Q ?W (PStr ''ac'') = Inr ([PStr ''ac''], [([PInt 5, PInt 9], 2)])"
    using encoding_of_input_string [where kwargs = ?K and q2b_vocab = ?Q and word_vocab = ?W and s = "''ac''"]
    by (simp add: m qa qc wb wc)
  moreover have "preprocess ?K ?Q ?W (PStr (replicate 65 (CHR ''a''))) =
     Inr ([PStr (replicate 65 (CHR ''a''))], [(replicate 64 (PInt 5), 64)])"
    using encoding_of_input_string [where kwargs = ?K and q2b_vocab = ?Q and word_vocab = ?W
        and s = "replicate 65 (CHR ''a'')"]
    by (simp add: m qa wb)
  moreover have "preprocess ?K1 ?Q ?W (PStr ''ac'') = Inr ([PStr ''ac''], [([PInt 5], 1)])"
    using encoding_of_input_string [where kwargs = ?K1 and q2b_vocab = ?Q and word_vocab = ?W and s = "''ac''"]
    by (simp add: m1 qa wb)
  ultimately show ?thesis using m by simp
qed

text \<open>
  Claim C4, amended. The check of \<open>_preprocess\<close> raises \<open>TypeError\<close> exactly when the
  text argument is neither a \<open>str\<close> nor a \<open>list\<close>, the elements of a list not being
  inspected; it raises no other error, and a string or a list of strings is encoded
  without any error.
\<close>

theorem input_check_type_error:
  "((check_inputs x = Inl TypeError) = (\<not> is_str x \<and> \<not> is_list x)) \<and>
   (\<forall>e. check_inputs x = Inl e \<longrightarrow> e = TypeError) \<and>
   (is_str x \<or> is_str_list x \<longrightarrow> (\<exists>out. preprocess kwargs q2b_vocab word_vocab x = Inr out))"
proof -
  have a: "(check_inputs x = Inl TypeError) = (\<not> is_str x \<and> \<not> is_list x)"
    by (cases x) (simp_all add: check_inputs_def)
  have b: "\<forall>e. check_inputs x = Inl e \<longrightarrow> e = TypeError"
    by (cases x) (simp_all add: check_inputs_def)
  have c: "\<exists>out. preprocess kwargs q2b_vocab word_vocab x = Inr out" if "is_str x \<or> is_str_list x"
  proof -
    from that consider s where "x = PStr s" | ss where "x = PList (map PStr ss)"
      using is_str_list_conv [of x] by (cases x) auto
    then show ?thesis
    proof cases
      case 1
      then show ?thesis
        using read_strs [of "max_seq_len kwargs" q2b_vocab word_vocab "[s]"]
        by (simp add: preprocess_def check_inputs_def)
    next
      case 2
      then show ?thesis
        by (simp add: preprocess_def check_inputs_def read_strs)
    qed
  qed
  from a b c show ?thesis by blast
qed

theorem input_check_type_error_witness:
  "check_inputs (PInt 3) = Inl TypeError \<and>
   (\<exists>out. preprocess Map.empty Map.empty Map.empty (PStr ''ab'') = Inr out) \<and>
   (\<exists>out. preprocess Map.empty Map.empty Map.empty (PList [PStr ''ab'', PStr ''c'']) = Inr out)"
  using input_check_type_error [of "PInt 3"]
    input_check_type_error [of "PStr ''ab''" Map.empty Map.empty Map.empty]
    input_check_type_error [of "PList [PStr ''ab'', PStr ''c'']" Map.empty Map.empty Map.empty]
  by simp

text \<open>
  Claim C4 as stated fails: a list holding a list is neither a string nor a list of
  strings, and \<open>_preprocess\<close> accepts and encodes it.
\<close>

theorem list_of_lists_passes_input_check:
  "\<not> is_str (PList [PList [PStr ''a'']]) \<and>
   \<not> is_str_list (PList [PList [PStr ''a'']]) \<and>
   check_inputs (PList [PList [PStr ''a'']]) = Inr (PList [PList [PStr ''a'']]) \<and>
   preprocess Map.empty Map.empty Map.empty (PList [PList [PStr ''a'']]) =
     Inr ([PList [PStr ''a'']], [([PNone], 1)])"
  by (simp add: check_inputs_def preprocess_def max_seq_len_def oov_token_id_def)

section \<open>The vocabulary file: claim C10\<close>




















end
